theory Spec2Isabelle
  imports Main "HOL-Library.Word"
begin

unbundle bit_operations_syntax

section \<open>Bytes, sizes and the C library\<close>

text \<open>
  The embedding follows \<^verbatim>\<open>src/crypto/pbkdf2.cc\<close>. A \<^verbatim>\<open>u_int8_t\<close> is an
  \<open>8 word\<close>, a \<^verbatim>\<open>u_int\<close> a \<open>32 word\<close>. A buffer handed over as a pointer together
  with its length (\<^verbatim>\<open>text, text_len\<close>; \<^verbatim>\<open>pass, pass_len\<close>;
  \<^verbatim>\<open>salt, salt_len\<close>; \<^verbatim>\<open>key, key_len\<close>) is a byte list, the length being
  the list's. A \<^verbatim>\<open>size_t\<close> is a natural number below \<open>2 ^ 64\<close>, with the wrap-around
  of \<^verbatim>\<open>salt_len + 4\<close> written out.
\<close>

type_synonym byte = "8 word"
type_synonym bytes = "8 word list"
type_synonym u_int = "32 word"

definition SHA1_DIGEST_LENGTH :: nat where
  "SHA1_DIGEST_LENGTH = 20"

definition SHA1_BLOCK_LENGTH :: nat where
  "SHA1_BLOCK_LENGTH = 64"

definition SIZE_MAX :: nat where
  "SIZE_MAX = 2 ^ 64 - 1"

text \<open>\<^verbatim>\<open>bzero(buf, n)\<close>: the first \<open>n\<close> bytes of the buffer become zero.\<close>

definition bzero :: "bytes \<Rightarrow> nat \<Rightarrow> bytes" where
  "bzero buf n = replicate n 0 @ drop n buf"

text \<open>
  \<^verbatim>\<open>memcpy(dst + off, src, n)\<close>: \<open>n\<close> bytes of \<open>src\<close> replace the bytes of the
  destination buffer from offset \<open>off\<close> on. \<^verbatim>\<open>bcopy(src, dst, n)\<close> is the same copy
  with the arguments in the other order.
\<close>

definition memcpy :: "bytes \<Rightarrow> nat \<Rightarrow> bytes \<Rightarrow> nat \<Rightarrow> bytes" where
  "memcpy dst off src n = take off dst @ take n src @ drop (off + n) dst"

definition bcopy :: "bytes \<Rightarrow> bytes \<Rightarrow> nat \<Rightarrow> bytes" where
  "bcopy src dst n = memcpy dst 0 src n"

text \<open>
  What the environment decides: whether \<^verbatim>\<open>malloc\<close> of a given size succeeds, and the
  indeterminate bytes found in a fresh heap block and in the uninitialised arrays of a stack
  frame.
\<close>

record env =
  alloc_ok :: "nat \<Rightarrow> bool"
  heap_junk :: "nat \<Rightarrow> byte"
  stack_junk :: "nat \<Rightarrow> byte"

definition malloc :: "env \<Rightarrow> nat \<Rightarrow> bytes option" where
  "malloc e n = (if alloc_ok e n then Some (map (heap_junk e) [0..<n]) else None)"

definition stack_array :: "env \<Rightarrow> nat \<Rightarrow> nat \<Rightarrow> bytes" where
  "stack_array e off n = map (stack_junk e) [off..<off + n]"

section \<open>The hash primitive\<close>

text \<open>
  Modelled from the spec: the hash primitive behind \<^verbatim>\<open>SHA1_Init\<close>,
  \<^verbatim>\<open>SHA1_Update\<close> and \<^verbatim>\<open>SHA1_Final\<close> is OpenSSL's
  (\<^verbatim>\<open>openssl/sha.h\<close>), an external collaborator that is not part of the repository.
  The spec names it as SHA-1 with a 20-byte digest and a 64-byte block; it is defined here as
  the standard describes it (FIPS 180): padding, the 80-word message schedule, 80 rounds on
  five 32-bit words per 64-byte block, big-endian throughout.
\<close>

definition rotl :: "nat \<Rightarrow> u_int \<Rightarrow> u_int" where
  "rotl n x = push_bit n x OR drop_bit (32 - n) x"

definition be32 :: "u_int \<Rightarrow> bytes" where
  "be32 w = [ucast (drop_bit 24 w), ucast (drop_bit 16 w), ucast (drop_bit 8 w), ucast w]"

definition be64 :: "64 word \<Rightarrow> bytes" where
  "be64 w = [ucast (drop_bit 56 w), ucast (drop_bit 48 w), ucast (drop_bit 40 w),
             ucast (drop_bit 32 w), ucast (drop_bit 24 w), ucast (drop_bit 16 w),
             ucast (drop_bit 8 w), ucast w]"

fun be_words :: "bytes \<Rightarrow> u_int list" where
  "be_words (a # b # c # d # rest) =
     (push_bit 24 (ucast a) OR push_bit 16 (ucast b) OR push_bit 8 (ucast c) OR ucast d)
       # be_words rest"
| "be_words _ = []"

definition sha1_pad :: "bytes \<Rightarrow> bytes" where
  "sha1_pad m = m @ [0x80] @ replicate ((119 - length m mod 64) mod 64) 0
                  @ be64 (of_nat (8 * length m))"

text \<open>The schedule is built in reverse: the head of \<open>ws\<close> is the latest word.\<close>

fun sha1_schedule :: "nat \<Rightarrow> u_int list \<Rightarrow> u_int list" where
  "sha1_schedule 0 ws = rev ws"
| "sha1_schedule (Suc n) ws =
     sha1_schedule n (rotl 1 (ws ! 2 XOR ws ! 7 XOR ws ! 13 XOR ws ! 15) # ws)"

definition sha1_f :: "nat \<Rightarrow> u_int \<Rightarrow> u_int \<Rightarrow> u_int \<Rightarrow> u_int" where
  "sha1_f t b c d =
     (if t < 20 then (b AND c) XOR (NOT b AND d)
      else if t < 40 then b XOR c XOR d
      else if t < 60 then (b AND c) XOR (b AND d) XOR (c AND d)
      else b XOR c XOR d)"

definition sha1_K :: "nat \<Rightarrow> u_int" where
  "sha1_K t = (if t < 20 then 0x5A827999 else if t < 40 then 0x6ED9EBA1
               else if t < 60 then 0x8F1BBCDC else 0xCA62C1D6)"

type_synonym sha1_state = "u_int \<times> u_int \<times> u_int \<times> u_int \<times> u_int"

fun sha1_step :: "nat \<Rightarrow> sha1_state \<Rightarrow> u_int \<Rightarrow> sha1_state" where
  "sha1_step t (a, b, c, d, e) w =
     (rotl 5 a + sha1_f t b c d + e + sha1_K t + w, a, rotl 30 b, c, d)"

fun sha1_rounds :: "nat \<Rightarrow> u_int list \<Rightarrow> sha1_state \<Rightarrow> sha1_state" where
  "sha1_rounds t [] s = s"
| "sha1_rounds t (w # ws) s = sha1_rounds (t + 1) ws (sha1_step t s w)"

fun sha1_add :: "sha1_state \<Rightarrow> sha1_state \<Rightarrow> sha1_state" where
  "sha1_add (h0, h1, h2, h3, h4) (a, b, c, d, e) = (h0 + a, h1 + b, h2 + c, h3 + d, h4 + e)"

definition sha1_block :: "sha1_state \<Rightarrow> bytes \<Rightarrow> sha1_state" where
  "sha1_block h blk = sha1_add h (sha1_rounds 0 (sha1_schedule 64 (rev (be_words blk))) h)"

fun sha1_blocks :: "nat \<Rightarrow> sha1_state \<Rightarrow> bytes \<Rightarrow> sha1_state" where
  "sha1_blocks 0 h m = h"
| "sha1_blocks (Suc n) h m = sha1_blocks n (sha1_block h (take 64 m)) (drop 64 m)"

definition sha1_init :: sha1_state where
  "sha1_init = (0x67452301, 0xEFCDAB89, 0x98BADCFE, 0x10325476, 0xC3D2E1F0)"

fun sha1_out :: "sha1_state \<Rightarrow> bytes" where
  "sha1_out (h0, h1, h2, h3, h4) = be32 h0 @ be32 h1 @ be32 h2 @ be32 h3 @ be32 h4"

definition SHA1 :: "bytes \<Rightarrow> bytes" where
  "SHA1 m = (let p = sha1_pad m in sha1_out (sha1_blocks (length p div 64) sha1_init p))"

text \<open>
  The streaming interface: a context holds the bytes absorbed since \<^verbatim>\<open>SHA1_Init\<close>,
  \<^verbatim>\<open>SHA1_Update(&ctx, data, len)\<close> appends \<open>len\<close> bytes, and
  \<^verbatim>\<open>SHA1_Final\<close> yields the digest of all of them.
\<close>

type_synonym SHA_CTX = bytes

definition SHA1_Init :: SHA_CTX where
  "SHA1_Init = []"

definition SHA1_Update :: "SHA_CTX \<Rightarrow> bytes \<Rightarrow> nat \<Rightarrow> SHA_CTX" where
  "SHA1_Update ctx data len = ctx @ take len data"

definition SHA1_Final :: "SHA_CTX \<Rightarrow> bytes" where
  "SHA1_Final ctx = SHA1 ctx"

section \<open>HMAC-SHA-1\<close>

text \<open>
  \<^verbatim>\<open>for (i = 0; i < SHA1_BLOCK_LENGTH; i++) k_pad[i] ^= c;\<close>
\<close>

function xor_pad_loop :: "nat \<Rightarrow> byte \<Rightarrow> bytes \<Rightarrow> bytes" where
  "xor_pad_loop i c k_pad =
     (if i < SHA1_BLOCK_LENGTH
      then xor_pad_loop (i + 1) c (k_pad[i := k_pad ! i XOR c])
      else k_pad)"
  by pat_completeness auto
termination
  by (relation "measure (\<lambda>(i, c, k_pad). SHA1_BLOCK_LENGTH - i)") auto

declare xor_pad_loop.simps [simp del]

text \<open>
  \<^verbatim>\<open>hmac_sha1\<close>, statement by statement. The frame keeps, beside the digest written
  to the caller's array, the content of the local \<^verbatim>\<open>k_pad\<close> when the function
  returns. \<^verbatim>\<open>tk\<close> is written only when the key is longer than a block, and
  \<^verbatim>\<open>key\<close> and \<^verbatim>\<open>key_len\<close> are then redirected to it. The first
  \<^verbatim>\<open>bzero(k_pad, sizeof k_pad)\<close> covers the whole of the uninitialised array, which
  is 64 zero bytes from then on.
\<close>

record hmac_frame =
  hm_digest :: bytes
  hm_k_pad :: bytes

definition hmac_sha1_frame :: "bytes \<Rightarrow> bytes \<Rightarrow> hmac_frame" where
  "hmac_sha1_frame text key =
     (let (key, key_len) =
            (if length key > SHA1_BLOCK_LENGTH
             then (let ctx = SHA1_Init;
                       ctx = SHA1_Update ctx key (length key);
                       tk = SHA1_Final ctx
                   in (tk, SHA1_DIGEST_LENGTH))
             else (key, length key));
          k_pad = replicate SHA1_BLOCK_LENGTH 0;
          k_pad = bcopy key k_pad key_len;
          k_pad = xor_pad_loop 0 0x36 k_pad;
          ctx = SHA1_Init;
          ctx = SHA1_Update ctx k_pad SHA1_BLOCK_LENGTH;
          ctx = SHA1_Update ctx text (length text);
          digest = SHA1_Final ctx;
          k_pad = bzero k_pad SHA1_BLOCK_LENGTH;
          k_pad = bcopy key k_pad key_len;
          k_pad = xor_pad_loop 0 0x5c k_pad;
          ctx = SHA1_Init;
          ctx = SHA1_Update ctx k_pad SHA1_BLOCK_LENGTH;
          ctx = SHA1_Update ctx digest SHA1_DIGEST_LENGTH;
          digest = SHA1_Final ctx
      in \<lparr>hm_digest = digest, hm_k_pad = k_pad\<rparr>)"

definition hmac_sha1 :: "bytes \<Rightarrow> bytes \<Rightarrow> bytes" where
  "hmac_sha1 text key = hm_digest (hmac_sha1_frame text key)"

text \<open>
  The HMAC of the specification, in its words: the effective key is the hash of the key when
  the key is longer than the block length, the key itself otherwise; the pads are the
  effective key, zero-padded to the block length, with every byte XORed with \<open>0x36\<close> and
  \<open>0x5c\<close>; the result is the hash of the outer pad followed by the inner digest.
\<close>

definition effective_key :: "bytes \<Rightarrow> bytes" where
  "effective_key key = (if length key > 64 then SHA1 key else key)"

definition zero_padded :: "bytes \<Rightarrow> bytes" where
  "zero_padded k = k @ replicate (64 - length k) 0"

definition inner_pad :: "bytes \<Rightarrow> bytes" where
  "inner_pad key = map (\<lambda>b. b XOR 0x36) (zero_padded (effective_key key))"

definition outer_pad :: "bytes \<Rightarrow> bytes" where
  "outer_pad key = map (\<lambda>b. b XOR 0x5c) (zero_padded (effective_key key))"

definition HMAC_ref :: "bytes \<Rightarrow> bytes \<Rightarrow> bytes" where
  "HMAC_ref message key = SHA1 (outer_pad key @ SHA1 (inner_pad key @ message))"

section \<open>The PBKDF2 driver\<close>

text \<open>
  \<^verbatim>\<open>for (j = 0; j < sizeof(obuf); j++) obuf[j] ^= d1[j];\<close>
\<close>

function xor_obuf_loop :: "nat \<Rightarrow> bytes \<Rightarrow> bytes \<Rightarrow> bytes" where
  "xor_obuf_loop j obuf d1 =
     (if j < SHA1_DIGEST_LENGTH
      then xor_obuf_loop (j + 1) (obuf[j := obuf ! j XOR d1 ! j]) d1
      else obuf)"
  by pat_completeness auto
termination
  by (relation "measure (\<lambda>(j, obuf, d1). SHA1_DIGEST_LENGTH - j)") auto

declare xor_obuf_loop.simps [simp del]

text \<open>
  \<^verbatim>\<open>for (i = 1; i < rounds; i++)\<close>: the chained HMAC applications of one block,
  on the arrays \<^verbatim>\<open>d1\<close>, \<^verbatim>\<open>d2\<close> and \<^verbatim>\<open>obuf\<close>. The counter is a
  \<^verbatim>\<open>u_int\<close>; it stays below \<^verbatim>\<open>rounds\<close> and so never wraps.
\<close>

lemma unat_succ_less: "(i :: u_int) < r \<Longrightarrow> unat (i + 1) = unat i + 1"
proof -
  assume "i < r"
  then have "unat i < unat r"
    by (simp add: word_less_nat_alt)
  moreover have "unat r < 2 ^ 32"
    using unsigned_less [of r, where 'a = nat] by simp
  ultimately have "unat i + 1 < 2 ^ 32"
    by simp
  then show ?thesis
    by (simp add: unat_word_ariths)
qed

function rounds_loop ::
  "bytes \<Rightarrow> u_int \<Rightarrow> u_int \<Rightarrow> bytes \<times> bytes \<times> bytes \<Rightarrow> bytes \<times> bytes \<times> bytes" where
  "rounds_loop pass rounds i (d1, d2, obuf) =
     (if i < rounds
      then (let d2 = hmac_sha1 d1 pass;
                d1 = memcpy d1 0 d2 SHA1_DIGEST_LENGTH;
                obuf = xor_obuf_loop 0 obuf d1
            in rounds_loop pass rounds (i + 1) (d1, d2, obuf))
      else (d1, d2, obuf))"
  by pat_completeness auto
termination
  by (relation "measure (\<lambda>(pass, rounds, i, s). unat rounds - unat i)")
    (auto simp: unat_succ_less word_less_nat_alt)

declare rounds_loop.simps [simp del]

text \<open>
  The variables of \<^verbatim>\<open>pkcs5_pbkdf2\<close> that the block loop reads and writes. The
  caller's key buffer is kept whole: \<open>st_pos\<close> is how far the pointer \<^verbatim>\<open>key\<close>
  has advanced into it, \<open>st_key_len\<close> what is left to fill.
\<close>

record pk_state =
  st_asalt :: bytes
  st_obuf :: bytes
  st_d1 :: bytes
  st_d2 :: bytes
  st_key :: bytes
  st_pos :: nat
  st_key_len :: nat
  st_count :: u_int

text \<open>One iteration of \<^verbatim>\<open>for (count = 1; key_len > 0; count++)\<close>.\<close>

definition block_body :: "bytes \<Rightarrow> nat \<Rightarrow> u_int \<Rightarrow> pk_state \<Rightarrow> pk_state" where
  "block_body pass salt_len rounds s =
     (let count = st_count s;
          asalt = st_asalt s;
          asalt = asalt[salt_len + 0 := ucast (drop_bit 24 count AND 0xff)];
          asalt = asalt[salt_len + 1 := ucast (drop_bit 16 count AND 0xff)];
          asalt = asalt[salt_len + 2 := ucast (drop_bit 8 count AND 0xff)];
          asalt = asalt[salt_len + 3 := ucast (count AND 0xff)];
          d1 = hmac_sha1 (take (salt_len + 4) asalt) pass;
          obuf = memcpy (st_obuf s) 0 d1 SHA1_DIGEST_LENGTH;
          (d1, d2, obuf) = rounds_loop pass rounds 1 (d1, st_d2 s, obuf);
          r = min (st_key_len s) SHA1_DIGEST_LENGTH;
          key = memcpy (st_key s) (st_pos s) obuf r
      in \<lparr>st_asalt = asalt, st_obuf = obuf, st_d1 = d1, st_d2 = d2, st_key = key,
          st_pos = st_pos s + r, st_key_len = st_key_len s - r, st_count = count + 1\<rparr>)"

lemma st_key_len_block_body:
  "st_key_len (block_body pass salt_len rounds s) =
     st_key_len s - min (st_key_len s) SHA1_DIGEST_LENGTH"
  by (simp add: block_body_def Let_def split: prod.splits)

function block_loop :: "bytes \<Rightarrow> nat \<Rightarrow> u_int \<Rightarrow> pk_state \<Rightarrow> pk_state" where
  "block_loop pass salt_len rounds s =
     (if st_key_len s > 0
      then block_loop pass salt_len rounds (block_body pass salt_len rounds s)
      else s)"
  by pat_completeness auto
termination
  by (relation "measure (\<lambda>(pass, salt_len, rounds, s). st_key_len s)")
    (auto simp: st_key_len_block_body SHA1_DIGEST_LENGTH_def)

declare block_loop.simps [simp del]

text \<open>
  What a call of \<^verbatim>\<open>pkcs5_pbkdf2\<close> leaves behind when it returns: the return value,
  the caller's key buffer, the heap block \<^verbatim>\<open>asalt\<close> as it is handed to
  \<^verbatim>\<open>free\<close> (\<open>None\<close> when no block was allocated) and the three local arrays.
  A call that writes past the end of the block it allocated has no defined result:
  \<open>Overrun\<close>.
\<close>

record pk_frame =
  fr_ret :: int
  fr_key :: bytes
  fr_asalt :: "bytes option"
  fr_obuf :: bytes
  fr_d1 :: bytes
  fr_d2 :: bytes

datatype 'a exec = Returns 'a | Overrun

definition pkcs5_pbkdf2 :: "env \<Rightarrow> bytes \<Rightarrow> bytes \<Rightarrow> bytes \<Rightarrow> u_int \<Rightarrow> pk_frame exec" where
  "pkcs5_pbkdf2 e pass salt key rounds =
     (let salt_len = length salt;
          key_len = length key;
          obuf = stack_array e 0 SHA1_DIGEST_LENGTH;
          d1 = stack_array e 20 SHA1_DIGEST_LENGTH;
          d2 = stack_array e 40 SHA1_DIGEST_LENGTH;
          early = \<lparr>fr_ret = - 1, fr_key = key, fr_asalt = None,
                   fr_obuf = obuf, fr_d1 = d1, fr_d2 = d2\<rparr>
      in if rounds < 1 \<or> key_len = 0 then Returns early
         else if salt_len = 0 \<or> salt_len > SIZE_MAX - 1 then Returns early
         else
           (case malloc e ((salt_len + 4) mod (SIZE_MAX + 1)) of
              None \<Rightarrow> Returns early
            | Some asalt \<Rightarrow>
                if length asalt < salt_len then Overrun
                else
                  (let asalt = memcpy asalt 0 salt salt_len;
                       s = block_loop pass salt_len rounds
                             \<lparr>st_asalt = asalt, st_obuf = obuf, st_d1 = d1, st_d2 = d2,
                              st_key = key, st_pos = 0, st_key_len = key_len, st_count = 1\<rparr>;
                       asalt = bzero (st_asalt s) ((salt_len + 4) mod (SIZE_MAX + 1));
                       d1 = bzero (st_d1 s) SHA1_DIGEST_LENGTH;
                       d2 = bzero (st_d2 s) SHA1_DIGEST_LENGTH;
                       obuf = bzero (st_obuf s) SHA1_DIGEST_LENGTH
                   in Returns \<lparr>fr_ret = 0, fr_key = st_key s, fr_asalt = Some asalt,
                                fr_obuf = obuf, fr_d1 = d1, fr_d2 = d2\<rparr>)))"

text \<open>
  Modelled from the spec: \<^verbatim>\<open>throw_c\<close> comes from \<^verbatim>\<open>util/errstream.hh\<close>,
  which is not among the sources. By the spec every failure reaches the caller as the one
  "derivation failed" outcome, so \<^verbatim>\<open>throw_c(cond)\<close> raises that error when the
  condition is false and does nothing otherwise.
\<close>

datatype error = DerivationFailed

definition throw_c :: "bool \<Rightarrow> error + unit" where
  "throw_c cond = (if cond then Inr () else Inl DerivationFailed)"

text \<open>
  The entry point \<^verbatim>\<open>pbkdf2\<close>. \<^verbatim>\<open>key.resize(key_len)\<close> gives a buffer of
  \<open>key_len\<close> zero bytes; the string is returned only when \<^verbatim>\<open>throw_c\<close> lets the
  call go on. The password and the salt are \<^verbatim>\<open>std::string\<close>s: their lengths stay
  well below \<open>SIZE_MAX - 4\<close>, which the theorems about \<open>pbkdf2\<close> state as the hypothesis
  \<open>length salt + 4 \<le> SIZE_MAX\<close>.
\<close>

definition pbkdf2 :: "env \<Rightarrow> bytes \<Rightarrow> bytes \<Rightarrow> u_int \<Rightarrow> u_int \<Rightarrow> (error + bytes) exec" where
  "pbkdf2 e pass salt key_len rounds =
     (let key = replicate (unat key_len) 0
      in case pkcs5_pbkdf2 e pass salt key rounds of
           Overrun \<Rightarrow> Overrun
         | Returns fr \<Rightarrow>
             (case throw_c (fr_ret fr = 0) of
                Inl err \<Rightarrow> Returns (Inl err)
              | Inr _ \<Rightarrow> Returns (Inr (fr_key fr))))"

section \<open>The PBKDF2 of the specification\<close>

text \<open>
  In the spec's words: the block with index \<open>i\<close> has \<open>U 1 = HMAC(salt || INT(i), password)\<close>
  with \<open>INT(i)\<close> the big-endian 32-bit counter, \<open>U j = HMAC(U (j - 1), password)\<close> for
  \<open>j\<close> from 2 to \<open>rounds\<close>, and \<open>T i\<close> the byte-wise XOR of \<open>U 1\<close> to
  \<open>U rounds\<close>; the key is \<open>T 1 || T 2 || ...\<close> cut to the requested length.
  \<open>U_ref\<close> and \<open>T_upto\<close> count \<open>j\<close> from 0.
\<close>

definition INT4 :: "nat \<Rightarrow> bytes" where
  "INT4 i = [of_nat (i div 2 ^ 24 mod 256), of_nat (i div 2 ^ 16 mod 256),
            of_nat (i div 2 ^ 8 mod 256), of_nat (i mod 256)]"

fun U_ref :: "bytes \<Rightarrow> bytes \<Rightarrow> nat \<Rightarrow> nat \<Rightarrow> bytes" where
  "U_ref P S i 0 = HMAC_ref (S @ INT4 i) P"
| "U_ref P S i (Suc j) = HMAC_ref (U_ref P S i j) P"

definition xor_bytes :: "bytes \<Rightarrow> bytes \<Rightarrow> bytes" where
  "xor_bytes xs ys = map2 (XOR) xs ys"

fun T_upto :: "bytes \<Rightarrow> bytes \<Rightarrow> nat \<Rightarrow> nat \<Rightarrow> bytes" where
  "T_upto P S i 0 = U_ref P S i 0"
| "T_upto P S i (Suc j) = xor_bytes (T_upto P S i j) (U_ref P S i (Suc j))"

definition T_ref :: "bytes \<Rightarrow> bytes \<Rightarrow> nat \<Rightarrow> nat \<Rightarrow> bytes" where
  "T_ref P S c i = T_upto P S i (c - 1)"

definition PBKDF2_ref :: "bytes \<Rightarrow> bytes \<Rightarrow> nat \<Rightarrow> nat \<Rightarrow> bytes" where
  "PBKDF2_ref P S c dkLen =
     take dkLen (concat (map (T_ref P S c) [1..<Suc ((dkLen + 19) div 20)]))"

section \<open>Properties of the hash primitive and of HMAC\<close>

lemma length_be32 [simp]: "length (be32 w) = 4"
  by (simp add: be32_def)

lemma length_sha1_out: "length (sha1_out s) = 20"
  by (cases s) simp

lemma length_SHA1 [simp]: "length (SHA1 m) = 20"
  by (simp add: SHA1_def Let_def length_sha1_out)

lemma xor_pad_loop_eq:
  "i \<le> SHA1_BLOCK_LENGTH \<Longrightarrow> length k = SHA1_BLOCK_LENGTH \<Longrightarrow>
   xor_pad_loop i c k = take i k @ map (\<lambda>b. b XOR c) (drop i k)"
proof (induction i c k rule: xor_pad_loop.induct)
  case (1 i c k)
  show ?case
  proof (cases "i < SHA1_BLOCK_LENGTH")
    case True
    let ?k' = "k[i := k ! i XOR c]"
    from True "1.prems" have i: "i < length k" by simp
    have "xor_pad_loop i c k = xor_pad_loop (i + 1) c ?k'"
      using True by (subst xor_pad_loop.simps) simp
    also have "\<dots> = take (i + 1) ?k' @ map (\<lambda>b. b XOR c) (drop (i + 1) ?k')"
      using True "1.prems" by (intro "1.IH") simp_all
    also have "take (i + 1) ?k' = take i k @ [k ! i XOR c]"
      using i by (simp add: take_Suc_conv_app_nth)
    also have "drop (i + 1) ?k' = drop (Suc i) k"
      by simp
    finally show ?thesis
      using i by (simp add: Cons_nth_drop_Suc [symmetric])
  next
    case False
    with "1.prems" have "i = length k" by simp
    then show ?thesis
      using False by (subst xor_pad_loop.simps) simp
  qed
qed

lemma xor_pad_loop_map:
  "length k = SHA1_BLOCK_LENGTH \<Longrightarrow> xor_pad_loop 0 c k = map (\<lambda>b. b XOR c) k"
  using xor_pad_loop_eq [of 0 k c] by simp

lemma length_zero_padded: "length k \<le> 64 \<Longrightarrow> length (zero_padded k) = 64"
  by (simp add: zero_padded_def)

lemma bcopy_into_zeros:
  "length k \<le> 64 \<Longrightarrow> bcopy k (replicate 64 0) (length k) = zero_padded k"
  by (simp add: bcopy_def memcpy_def zero_padded_def)

lemma k_pad_eq:
  "length k \<le> 64 \<Longrightarrow>
   xor_pad_loop 0 c (bcopy k (replicate 64 0) (length k)) = map (\<lambda>b. b XOR c) (zero_padded k)"
  by (simp add: bcopy_into_zeros xor_pad_loop_map length_zero_padded SHA1_BLOCK_LENGTH_def)

lemma hmac_sha1_frame_eq:
  "hmac_sha1_frame text key =
     \<lparr>hm_digest = HMAC_ref text key, hm_k_pad = outer_pad key\<rparr>"
proof (cases "length key > 64")
  case True
  have k: "effective_key key = SHA1 key"
    using True by (simp add: effective_key_def)
  have pad: "xor_pad_loop 0 c (bcopy (SHA1 key) (replicate 64 0) 20) =
      map (\<lambda>b. b XOR c) (zero_padded (SHA1 key))" for c
    using k_pad_eq [of "SHA1 key" c] by simp
  have lz: "length (zero_padded (SHA1 key)) = 64"
    by (simp add: length_zero_padded)
  show ?thesis
    unfolding hmac_sha1_frame_def Let_def SHA1_Init_def SHA1_Update_def SHA1_Final_def
      SHA1_BLOCK_LENGTH_def SHA1_DIGEST_LENGTH_def bzero_def
    using True by (simp add: pad lz HMAC_ref_def inner_pad_def outer_pad_def k)
next
  case False
  have k: "effective_key key = key"
    using False by (simp add: effective_key_def)
  have pad: "xor_pad_loop 0 c (bcopy key (replicate 64 0) (length key)) =
      map (\<lambda>b. b XOR c) (zero_padded key)" for c
    using False by (intro k_pad_eq) simp
  have lz: "length (zero_padded key) = 64"
    using False by (simp add: length_zero_padded)
  show ?thesis
    unfolding hmac_sha1_frame_def Let_def SHA1_Init_def SHA1_Update_def SHA1_Final_def
      SHA1_BLOCK_LENGTH_def SHA1_DIGEST_LENGTH_def bzero_def
    using False by (simp add: pad lz HMAC_ref_def inner_pad_def outer_pad_def k)
qed

lemma hmac_sha1_eq: "hmac_sha1 text key = HMAC_ref text key"
  by (simp add: hmac_sha1_def hmac_sha1_frame_eq)

lemma length_HMAC_ref [simp]: "length (HMAC_ref m k) = 20"
  by (simp add: HMAC_ref_def)

lemma length_hmac_sha1 [simp]: "length (hmac_sha1 text key) = 20"
  by (simp add: hmac_sha1_eq)

section \<open>The block counter and the XOR loops\<close>

lemma ff_mask: "(0xff :: u_int) = mask 8"
  by (simp add: mask_eq_exp_minus_1)

lemma ucast_and_ff: "(ucast (x AND 0xff) :: byte) = ucast (x :: u_int)"
  unfolding ff_mask
  by (rule bit_word_eqI) (auto simp add: bit_simps)

lemma byte_of_count:
  assumes "k + 8 \<le> 32"
  shows "(ucast (drop_bit k (of_nat i :: u_int) AND 0xff) :: byte) = of_nat (i div 2 ^ k mod 256)"
proof -
  have "unat (ucast (drop_bit k (of_nat i :: u_int)) :: byte)
      = take_bit 8 (drop_bit k (take_bit 32 i))"
    by (simp add: unsigned_ucast_eq unat_drop_bit_eq unsigned_of_nat)
  also have "\<dots> = take_bit 8 (drop_bit k i)"
  proof -
    have "min 8 (32 - k) = 8"
      using assms by simp
    then show ?thesis
      by (simp add: drop_bit_take_bit)
  qed
  also have "\<dots> = i div 2 ^ k mod 256"
    by (simp add: take_bit_eq_mod drop_bit_eq_div)
  also have "\<dots> = unat (of_nat (i div 2 ^ k mod 256) :: byte)"
    by (simp add: unsigned_of_nat take_bit_eq_mod)
  finally show ?thesis
    unfolding ucast_and_ff by (simp only: word_unat_eq_iff)
qed

lemma count_bytes:
  "[ucast (drop_bit 24 (of_nat i :: u_int) AND 0xff) :: byte,
    ucast (drop_bit 16 (of_nat i :: u_int) AND 0xff),
    ucast (drop_bit 8 (of_nat i :: u_int) AND 0xff),
    ucast ((of_nat i :: u_int) AND 0xff)] = INT4 i"
  using byte_of_count [of 24 i] byte_of_count [of 16 i] byte_of_count [of 8 i]
    byte_of_count [of 0 i]
  by (simp add: INT4_def)

lemma xor_obuf_loop_eq:
  "j \<le> SHA1_DIGEST_LENGTH \<Longrightarrow> length obuf = SHA1_DIGEST_LENGTH \<Longrightarrow>
   length d1 = SHA1_DIGEST_LENGTH \<Longrightarrow>
   xor_obuf_loop j obuf d1 = take j obuf @ xor_bytes (drop j obuf) (drop j d1)"
proof (induction j obuf d1 rule: xor_obuf_loop.induct)
  case (1 j obuf d1)
  show ?case
  proof (cases "j < SHA1_DIGEST_LENGTH")
    case True
    let ?o' = "obuf[j := obuf ! j XOR d1 ! j]"
    from True "1.prems" have j: "j < length obuf" "j < length d1" by simp_all
    have "xor_obuf_loop j obuf d1 = xor_obuf_loop (j + 1) ?o' d1"
      using True by (subst xor_obuf_loop.simps) simp
    also have "\<dots> = take (j + 1) ?o' @ xor_bytes (drop (j + 1) ?o') (drop (j + 1) d1)"
      using True "1.prems" by (intro "1.IH") simp_all
    also have "take (j + 1) ?o' = take j obuf @ [obuf ! j XOR d1 ! j]"
      using j by (simp add: take_Suc_conv_app_nth)
    also have "drop (j + 1) ?o' = drop (Suc j) obuf"
      by simp
    finally show ?thesis
      using j by (simp add: xor_bytes_def Cons_nth_drop_Suc [symmetric])
  next
    case False
    with "1.prems" have "j = length obuf" by simp
    then show ?thesis
      using False by (subst xor_obuf_loop.simps) (simp add: xor_bytes_def)
  qed
qed

lemma xor_obuf_loop_xor_bytes:
  "length obuf = SHA1_DIGEST_LENGTH \<Longrightarrow> length d1 = SHA1_DIGEST_LENGTH \<Longrightarrow>
   xor_obuf_loop 0 obuf d1 = xor_bytes obuf d1"
  using xor_obuf_loop_eq [of 0 obuf d1] by simp

lemma length_xor_bytes [simp]: "length (xor_bytes xs ys) = min (length xs) (length ys)"
  by (simp add: xor_bytes_def)

lemma length_U_ref [simp]: "length (U_ref P S i j) = 20"
  by (cases j) simp_all

lemma length_T_upto [simp]: "length (T_upto P S i j) = 20"
  by (induction j) simp_all

lemma length_T_ref [simp]: "length (T_ref P S c i) = 20"
  by (simp add: T_ref_def)

lemma memcpy_whole: "length src = n \<Longrightarrow> length dst = n \<Longrightarrow> memcpy dst 0 src n = src"
  by (simp add: memcpy_def)

section \<open>The rounds loop computes the chained HMAC values\<close>

lemma rounds_loop_step:
  "i < rounds \<Longrightarrow> length d1 = 20 \<Longrightarrow> length obuf = 20 \<Longrightarrow>
   rounds_loop P rounds i (d1, d2, obuf) =
     rounds_loop P rounds (i + 1) (HMAC_ref d1 P, HMAC_ref d1 P, xor_bytes obuf (HMAC_ref d1 P))"
  by (subst rounds_loop.simps)
    (simp add: Let_def hmac_sha1_eq memcpy_whole xor_obuf_loop_xor_bytes SHA1_DIGEST_LENGTH_def)

lemma rounds_loop_stop:
  "\<not> i < rounds \<Longrightarrow> rounds_loop P rounds i (d1, d2, obuf) = (d1, d2, obuf)"
  by (subst rounds_loop.simps) simp

lemma rounds_loop_eq:
  "n = unat rounds - unat i \<Longrightarrow> 1 \<le> i \<Longrightarrow> i \<le> rounds \<Longrightarrow> length d2 = 20 \<Longrightarrow>
   \<exists>d2'. length d2' = 20 \<and>
     rounds_loop P rounds i (U_ref P S b (unat i - 1), d2, T_upto P S b (unat i - 1)) =
       (U_ref P S b (unat rounds - 1), d2', T_upto P S b (unat rounds - 1))"
proof (induction n arbitrary: i d2)
  case 0
  then have "unat rounds = unat i"
    by (simp add: word_le_nat_alt)
  then have eq: "i = rounds"
    by (simp add: word_unat_eq_iff)
  then show ?case
    using "0.prems" by (simp add: rounds_loop_stop)
next
  case (Suc n)
  then have lt: "i < rounds"
    by (simp add: word_less_nat_alt)
  have ui: "unat (i + 1) = unat i + 1"
    using lt by (rule unat_succ_less)
  have pos: "1 \<le> unat i"
    using Suc.prems(2) by (simp add: word_le_nat_alt)
  then have Suc_i: "Suc (unat i - 1) = unat i"
    by simp
  have U: "HMAC_ref (U_ref P S b (unat i - 1)) P = U_ref P S b (unat i)"
    using U_ref.simps(2) [of P S b "unat i - 1"] Suc_i by simp
  have T: "xor_bytes (T_upto P S b (unat i - 1)) (U_ref P S b (unat i)) = T_upto P S b (unat i)"
    using T_upto.simps(2) [of P S b "unat i - 1"] Suc_i by simp
  have step: "rounds_loop P rounds i (U_ref P S b (unat i - 1), d2, T_upto P S b (unat i - 1)) =
      rounds_loop P rounds (i + 1) (U_ref P S b (unat i), U_ref P S b (unat i), T_upto P S b (unat i))"
  proof -
    have "rounds_loop P rounds i (U_ref P S b (unat i - 1), d2, T_upto P S b (unat i - 1)) =
        rounds_loop P rounds (i + 1)
          (HMAC_ref (U_ref P S b (unat i - 1)) P, HMAC_ref (U_ref P S b (unat i - 1)) P,
           xor_bytes (T_upto P S b (unat i - 1)) (HMAC_ref (U_ref P S b (unat i - 1)) P))"
      using lt by (rule rounds_loop_step) simp_all
    then show ?thesis
      by (simp only: U T)
  qed
  have "\<exists>d2'. length d2' = 20 \<and>
      rounds_loop P rounds (i + 1)
        (U_ref P S b (unat (i + 1) - 1), U_ref P S b (unat i), T_upto P S b (unat (i + 1) - 1)) =
      (U_ref P S b (unat rounds - 1), d2', T_upto P S b (unat rounds - 1))"
  proof (rule Suc.IH)
    show "n = unat rounds - unat (i + 1)"
      using Suc.prems(1) ui by simp
    show "1 \<le> i + 1"
      using ui by (simp add: word_le_nat_alt)
    show "i + 1 \<le> rounds"
      using lt ui by (simp add: word_le_nat_alt word_less_nat_alt)
    show "length (U_ref P S b (unat i)) = 20"
      by simp
  qed
  then show ?case
    using step ui by simp
qed

lemma rounds_loop_from_1:
  assumes "1 \<le> rounds" "length d2 = 20"
  shows "\<exists>d2'. length d2' = 20 \<and>
     rounds_loop P rounds 1 (HMAC_ref (S @ INT4 b) P, d2, HMAC_ref (S @ INT4 b) P) =
       (U_ref P S b (unat rounds - 1), d2', T_ref P S (unat rounds) b)"
  using rounds_loop_eq [of "unat rounds - unat (1 :: u_int)" rounds 1 d2 P S b] assms
  by (simp add: T_ref_def)

section \<open>One block\<close>

definition pk_inv :: "bytes \<Rightarrow> nat \<Rightarrow> pk_state \<Rightarrow> bool" where
  "pk_inv salt i s \<longleftrightarrow>
     take (length salt) (st_asalt s) = salt \<and> length (st_asalt s) = length salt + 4 \<and>
     length (st_obuf s) = 20 \<and> length (st_d1 s) = 20 \<and> length (st_d2 s) = 20 \<and>
     st_count s = of_nat i \<and> length (st_key s) = st_pos s + st_key_len s"

lemma asalt_update:
  assumes "length sfx = 4"
  shows "(salt @ sfx)[length salt + 0 := a, length salt + 1 := b, length salt + 2 := c,
           length salt + 3 := d] = salt @ [a, b, c, d]"
proof -
  from assms obtain w x y z where "sfx = [w, x, y, z]"
    by (auto simp: length_Suc_conv eval_nat_numeral)
  then show ?thesis
    by (simp add: list_update_append)
qed

lemma asalt_split:
  assumes "take (length salt) asalt = salt" "length asalt = length salt + 4"
  shows "\<exists>sfx. asalt = salt @ sfx \<and> length sfx = 4"
proof -
  have "asalt = take (length salt) asalt @ drop (length salt) asalt"
    by simp
  with assms have "asalt = salt @ drop (length salt) asalt"
    by simp
  moreover have "length (drop (length salt) asalt) = 4"
    using assms by simp
  ultimately show ?thesis
    by blast
qed

lemma block_body_eq:
  assumes inv: "pk_inv salt i s" and r: "1 \<le> rounds"
  shows "\<exists>d2'. length d2' = 20 \<and>
    block_body P (length salt) rounds s =
      \<lparr>st_asalt = salt @ INT4 i,
       st_obuf = T_ref P salt (unat rounds) i,
       st_d1 = U_ref P salt i (unat rounds - 1),
       st_d2 = d2',
       st_key = memcpy (st_key s) (st_pos s) (T_ref P salt (unat rounds) i)
                  (min (st_key_len s) 20),
       st_pos = st_pos s + min (st_key_len s) 20,
       st_key_len = st_key_len s - min (st_key_len s) 20,
       st_count = of_nat (i + 1)\<rparr>"
proof -
  from inv obtain sfx where sfx: "st_asalt s = salt @ sfx" "length sfx = 4"
    using asalt_split [of salt "st_asalt s"] by (auto simp: pk_inv_def)
  have cnt: "st_count s = of_nat i"
    using inv by (simp add: pk_inv_def)
  let ?c = "of_nat i :: u_int"
  have upd: "(salt @ sfx)[length salt + 0 := ucast (drop_bit 24 ?c AND 0xff),
       length salt + 1 := ucast (drop_bit 16 ?c AND 0xff),
       length salt + 2 := ucast (drop_bit 8 ?c AND 0xff),
       length salt + 3 := ucast (?c AND 0xff)] = salt @ INT4 i"
    using sfx(2) by (simp only: asalt_update count_bytes)
  from inv have "length (st_d2 s) = 20"
    by (simp add: pk_inv_def)
  with r obtain d2' where d2': "length d2' = 20"
    "rounds_loop P rounds 1 (HMAC_ref (salt @ INT4 i) P, st_d2 s, HMAC_ref (salt @ INT4 i) P) =
       (U_ref P salt i (unat rounds - 1), d2', T_ref P salt (unat rounds) i)"
    using rounds_loop_from_1 [of rounds "st_d2 s" P salt i] by blast
  have o: "memcpy (st_obuf s) 0 (HMAC_ref (salt @ INT4 i) P) 20 = HMAC_ref (salt @ INT4 i) P"
    using inv by (simp add: memcpy_whole pk_inv_def)
  have len4: "length (INT4 i) = 4"
    by (simp add: INT4_def)
  have "block_body P (length salt) rounds s =
      \<lparr>st_asalt = salt @ INT4 i,
       st_obuf = T_ref P salt (unat rounds) i,
       st_d1 = U_ref P salt i (unat rounds - 1),
       st_d2 = d2',
       st_key = memcpy (st_key s) (st_pos s) (T_ref P salt (unat rounds) i)
                  (min (st_key_len s) 20),
       st_pos = st_pos s + min (st_key_len s) 20,
       st_key_len = st_key_len s - min (st_key_len s) 20,
       st_count = of_nat (i + 1)\<rparr>"
    unfolding block_body_def Let_def sfx(1) cnt upd hmac_sha1_eq SHA1_DIGEST_LENGTH_def
    by (simp add: len4 o d2')
  with d2'(1) show ?thesis
    by blast
qed

lemma pk_inv_block_body:
  assumes "pk_inv salt i s" "1 \<le> rounds"
  shows "pk_inv salt (i + 1) (block_body P (length salt) rounds s)"
proof -
  from assms obtain d2' where "length d2' = 20" and
    eq: "block_body P (length salt) rounds s =
      \<lparr>st_asalt = salt @ INT4 i,
       st_obuf = T_ref P salt (unat rounds) i,
       st_d1 = U_ref P salt i (unat rounds - 1),
       st_d2 = d2',
       st_key = memcpy (st_key s) (st_pos s) (T_ref P salt (unat rounds) i)
                  (min (st_key_len s) 20),
       st_pos = st_pos s + min (st_key_len s) 20,
       st_key_len = st_key_len s - min (st_key_len s) 20,
       st_count = of_nat (i + 1)\<rparr>"
    using block_body_eq [of salt i s rounds P] by blast
  have "length (st_key s) = st_pos s + st_key_len s"
    using assms(1) by (simp add: pk_inv_def)
  then show ?thesis
    unfolding eq pk_inv_def using \<open>length d2' = 20\<close>
    by (simp add: INT4_def memcpy_def min_def)
qed

section \<open>The block loop fills the key buffer\<close>

lemma block_loop_step:
  "0 < st_key_len s \<Longrightarrow>
   block_loop P sl rounds s = block_loop P sl rounds (block_body P sl rounds s)"
  by (subst block_loop.simps) simp

lemma block_loop_stop: "st_key_len s = 0 \<Longrightarrow> block_loop P sl rounds s = s"
  by (subst block_loop.simps) simp

definition blocks_from :: "bytes \<Rightarrow> bytes \<Rightarrow> nat \<Rightarrow> nat \<Rightarrow> nat \<Rightarrow> bytes" where
  "blocks_from P S c i n = concat (map (T_ref P S c) [i..<i + n])"

lemma length_blocks_from [simp]: "length (blocks_from P S c i n) = 20 * n"
  by (induction n) (simp_all add: blocks_from_def)

lemma blocks_from_Suc:
  "blocks_from P S c i (Suc n) = T_ref P S c i @ blocks_from P S c (i + 1) n"
proof -
  have "[i..<i + Suc n] = i # [i + 1..<i + 1 + n]"
    by (simp add: upt_rec)
  then show ?thesis
    by (simp add: blocks_from_def)
qed

lemma take_blocks_step:
  assumes "0 < L"
  shows "take L (blocks_from P S c i ((L + 19) div 20)) =
     take (min L 20) (T_ref P S c i) @
     take (L - min L 20) (blocks_from P S c (i + 1) ((L - min L 20 + 19) div 20))"
proof (cases "L < 20")
  case True
  with assms have "(L + 19) div 20 = Suc 0"
    by simp
  then show ?thesis
    using True blocks_from_Suc [of P S c i 0] by (simp add: blocks_from_def)
next
  case False
  then have "(L + 19) div 20 = Suc ((L - 20 + 19) div 20)"
    by simp
  then show ?thesis
    using False by (simp add: blocks_from_Suc)
qed

lemma block_loop_eq:
  assumes "pk_inv salt i s" "1 \<le> rounds"
  shows "pk_inv salt (i + (st_key_len s + 19) div 20) (block_loop P (length salt) rounds s) \<and>
     st_key_len (block_loop P (length salt) rounds s) = 0 \<and>
     st_key (block_loop P (length salt) rounds s) =
       take (st_pos s) (st_key s) @
       take (st_key_len s)
         (blocks_from P salt (unat rounds) i ((st_key_len s + 19) div 20))"
  using assms
proof (induction "st_key_len s" arbitrary: s i rule: less_induct)
  case less
  show ?case
  proof (cases "st_key_len s = 0")
    case True
    have "length (st_key s) = st_pos s"
      using less.prems(1) True by (simp add: pk_inv_def)
    then show ?thesis
      using True less.prems by (simp add: block_loop_stop)
  next
    case False
    let ?L = "st_key_len s"
    let ?r = "min ?L 20"
    let ?T = "T_ref P salt (unat rounds) i"
    let ?s' = "block_body P (length salt) rounds s"
    from False have pos: "0 < ?L" by simp
    obtain d2' where
      eq: "?s' =
        \<lparr>st_asalt = salt @ INT4 i, st_obuf = ?T,
         st_d1 = U_ref P salt i (unat rounds - 1), st_d2 = d2',
         st_key = memcpy (st_key s) (st_pos s) ?T ?r,
         st_pos = st_pos s + ?r, st_key_len = ?L - ?r, st_count = of_nat (i + 1)\<rparr>"
      using block_body_eq [OF less.prems, of P] by blast
    have L': "st_key_len ?s' = ?L - ?r" and p': "st_pos ?s' = st_pos s + ?r"
      and k': "st_key ?s' = memcpy (st_key s) (st_pos s) ?T ?r"
      by (simp_all add: eq)
    have dec: "st_key_len ?s' < ?L"
      using pos L' by simp
    have inv': "pk_inv salt (i + 1) ?s'"
      using less.prems by (rule pk_inv_block_body)
    note IH = less.hyps [OF dec inv' less.prems(2)]
    have loop: "block_loop P (length salt) rounds s = block_loop P (length salt) rounds ?s'"
      using pos by (rule block_loop_step)
    have n: "i + 1 + (st_key_len ?s' + 19) div 20 = i + (?L + 19) div 20"
    proof (cases "?L < 20")
      case True
      with pos show ?thesis by (simp add: L')
    next
      case False
      then have "(?L + 19) div 20 = Suc ((?L - 20 + 19) div 20)" by simp
      with False show ?thesis by (simp add: L')
    qed
    have len: "length (st_key s) = st_pos s + ?L"
      using less.prems(1) by (simp add: pk_inv_def)
    have tk: "take (st_pos ?s') (st_key ?s') = take (st_pos s) (st_key s) @ take ?r ?T"
      unfolding p' k' using len by (simp add: memcpy_def min_def)
    have "st_key (block_loop P (length salt) rounds s) =
        take (st_pos ?s') (st_key ?s') @
        take (st_key_len ?s')
          (blocks_from P salt (unat rounds) (i + 1) ((st_key_len ?s' + 19) div 20))"
      using IH loop by simp
    also have "\<dots> = take (st_pos s) (st_key s) @
        take ?L (blocks_from P salt (unat rounds) i ((?L + 19) div 20))"
      unfolding tk L' using take_blocks_step [OF pos, of P salt "unat rounds" i] by simp
    finally have key: "st_key (block_loop P (length salt) rounds s) =
        take (st_pos s) (st_key s) @
        take ?L (blocks_from P salt (unat rounds) i ((?L + 19) div 20))" .
    from IH have "pk_inv salt (i + 1 + (st_key_len ?s' + 19) div 20)
        (block_loop P (length salt) rounds ?s')"
      by blast
    then have inv_fin: "pk_inv salt (i + (?L + 19) div 20) (block_loop P (length salt) rounds s)"
      by (simp only: n loop)
    from IH have "st_key_len (block_loop P (length salt) rounds s) = 0"
      by (simp only: loop)
    with key inv_fin show ?thesis
      by blast
  qed
qed

section \<open>The driver and the entry point\<close>

definition early_frame :: "env \<Rightarrow> bytes \<Rightarrow> pk_frame" where
  "early_frame e key =
     \<lparr>fr_ret = - 1, fr_key = key, fr_asalt = None,
      fr_obuf = stack_array e 0 20, fr_d1 = stack_array e 20 20,
      fr_d2 = stack_array e 40 20\<rparr>"

definition done_frame :: "bytes \<Rightarrow> bytes \<Rightarrow> bytes \<Rightarrow> u_int \<Rightarrow> pk_frame" where
  "done_frame P salt key rounds =
     \<lparr>fr_ret = 0, fr_key = PBKDF2_ref P salt (unat rounds) (length key),
      fr_asalt = Some (replicate (length salt + 4) 0),
      fr_obuf = replicate 20 0, fr_d1 = replicate 20 0, fr_d2 = replicate 20 0\<rparr>"

lemma length_stack_array [simp]: "length (stack_array e off n) = n"
  by (simp add: stack_array_def)

lemma word_nonzero_iff: "(rounds :: u_int) \<noteq> 0 \<longleftrightarrow> 1 \<le> rounds"
  using word_less_1 [of rounds] by (simp only: not_less [symmetric])

lemma pkcs5_pbkdf2_early:
  assumes "rounds < 1 \<or> key = [] \<or> salt = [] \<or> SIZE_MAX - 1 < length salt \<or>
    \<not> alloc_ok e ((length salt + 4) mod (SIZE_MAX + 1))"
  shows "pkcs5_pbkdf2 e P salt key rounds = Returns (early_frame e key)"
  using assms
  by (auto simp: pkcs5_pbkdf2_def Let_def early_frame_def malloc_def SHA1_DIGEST_LENGTH_def)

lemma pkcs5_pbkdf2_overrun:
  assumes "1 \<le> rounds" "key \<noteq> []" "SIZE_MAX < length salt + 4" "length salt \<le> SIZE_MAX - 1"
    "alloc_ok e ((length salt + 4) mod (SIZE_MAX + 1))"
  shows "pkcs5_pbkdf2 e P salt key rounds = Overrun"
proof -
  have "(length salt + 4) mod (SIZE_MAX + 1) = length salt + 4 - (SIZE_MAX + 1)"
    using assms(3,4) by (simp add: SIZE_MAX_def mod_if)
  moreover have "length salt + 4 - (SIZE_MAX + 1) < length salt"
    using assms(3) by (simp add: SIZE_MAX_def)
  moreover have "salt \<noteq> []"
    using assms(3) by (auto simp: SIZE_MAX_def)
  ultimately show ?thesis
    using assms
    by (simp add: pkcs5_pbkdf2_def Let_def malloc_def word_nonzero_iff not_less)
qed

lemma PBKDF2_ref_blocks:
  "PBKDF2_ref P S c L = take L (blocks_from P S c 1 ((L + 19) div 20))"
  by (simp add: PBKDF2_ref_def blocks_from_def)

lemma pkcs5_pbkdf2_ok:
  assumes r: "1 \<le> rounds" and k: "key \<noteq> []" and s: "salt \<noteq> []"
    and fit: "length salt + 4 \<le> SIZE_MAX" and al: "alloc_ok e (length salt + 4)"
  shows "pkcs5_pbkdf2 e P salt key rounds = Returns (done_frame P salt key rounds)"
proof -
  let ?sl = "length salt"
  let ?blk = "map (heap_junk e) [0..<?sl + 4]"
  let ?init = "\<lparr>st_asalt = memcpy ?blk 0 salt ?sl, st_obuf = stack_array e 0 20,
              st_d1 = stack_array e 20 20, st_d2 = stack_array e 40 20,
              st_key = key, st_pos = 0, st_key_len = length key, st_count = 1\<rparr>"
  let ?s = "block_loop P ?sl rounds ?init"
  have n: "(?sl + 4) mod (SIZE_MAX + 1) = ?sl + 4"
    using fit by simp
  have m: "malloc e (?sl + 4) = Some ?blk"
    using al by (simp add: malloc_def)
  have inv0: "pk_inv salt 1 ?init"
    by (simp add: pk_inv_def memcpy_def)
  have fin: "pk_inv salt (1 + (length key + 19) div 20) ?s \<and> st_key_len ?s = 0 \<and>
      st_key ?s = take 0 key @
        take (length key) (blocks_from P salt (unat rounds) 1 ((length key + 19) div 20))"
    using block_loop_eq [OF inv0 r, of P] by simp
  then have key: "st_key ?s = PBKDF2_ref P salt (unat rounds) (length key)"
    by (simp add: PBKDF2_ref_blocks)
  from fin have lens: "length (st_asalt ?s) = ?sl + 4" "length (st_obuf ?s) = 20"
      "length (st_d1 ?s) = 20" "length (st_d2 ?s) = 20"
    by (simp_all add: pk_inv_def)
  have guard: "\<not> (rounds < 1 \<or> length key = 0)" "\<not> (?sl = 0 \<or> SIZE_MAX - 1 < ?sl)"
    using r k s fit by (simp_all add: word_nonzero_iff)
  show ?thesis
    unfolding pkcs5_pbkdf2_def Let_def n m SHA1_DIGEST_LENGTH_def
    using guard lens key
    by (simp add: done_frame_def bzero_def)
qed

lemma pkcs5_pbkdf2_cases:
  "pkcs5_pbkdf2 e P salt key rounds =
     (if rounds < 1 \<or> key = [] \<or> salt = [] \<or> SIZE_MAX - 1 < length salt \<or>
         \<not> alloc_ok e ((length salt + 4) mod (SIZE_MAX + 1))
      then Returns (early_frame e key)
      else if SIZE_MAX < length salt + 4 then Overrun
      else Returns (done_frame P salt key rounds))"
proof (cases "rounds < 1 \<or> key = [] \<or> salt = [] \<or> SIZE_MAX - 1 < length salt \<or>
         \<not> alloc_ok e ((length salt + 4) mod (SIZE_MAX + 1))")
  case True
  then show ?thesis
    by (simp only: pkcs5_pbkdf2_early if_True)
next
  case False
  note ok = this
  show ?thesis
  proof (cases "SIZE_MAX < length salt + 4")
    case True
    with ok have "pkcs5_pbkdf2 e P salt key rounds = Overrun"
      by (intro pkcs5_pbkdf2_overrun) (simp_all add: word_nonzero_iff not_less)
    with ok True show ?thesis
      by simp
  next
    case False
    then have "(length salt + 4) mod (SIZE_MAX + 1) = length salt + 4"
      by simp
    with ok False have "pkcs5_pbkdf2 e P salt key rounds = Returns (done_frame P salt key rounds)"
      by (intro pkcs5_pbkdf2_ok) (simp_all add: word_nonzero_iff not_less)
    with ok False show ?thesis
      by simp
  qed
qed

lemma pbkdf2_cases:
  "pbkdf2 e P salt key_len rounds =
     (if rounds < 1 \<or> key_len = 0 \<or> salt = [] \<or> SIZE_MAX - 1 < length salt \<or>
         \<not> alloc_ok e ((length salt + 4) mod (SIZE_MAX + 1))
      then Returns (Inl DerivationFailed)
      else if SIZE_MAX < length salt + 4 then Overrun
      else Returns (Inr (PBKDF2_ref P salt (unat rounds) (unat key_len))))"
proof -
  have "replicate (unat key_len) (0 :: byte) = [] \<longleftrightarrow> key_len = 0"
    by (simp add: unat_eq_0)
  then show ?thesis
    unfolding pbkdf2_def Let_def pkcs5_pbkdf2_cases
    by (simp add: throw_c_def early_frame_def done_frame_def)
qed

lemma pbkdf2_ok:
  assumes "1 \<le> rounds" "1 \<le> key_len" "salt \<noteq> []" "length salt + 4 \<le> SIZE_MAX"
    "alloc_ok e (length salt + 4)"
  shows "pbkdf2 e P salt key_len rounds =
    Returns (Inr (PBKDF2_ref P salt (unat rounds) (unat key_len)))"
proof -
  have "key_len \<noteq> 0"
    using assms(2) by auto
  moreover have "(length salt + 4) mod (SIZE_MAX + 1) = length salt + 4"
    using assms(4) by simp
  ultimately show ?thesis
    using assms by (simp add: pbkdf2_cases word_nonzero_iff not_less)
qed

lemma length_PBKDF2_ref [simp]: "length (PBKDF2_ref P S c L) = L"
proof -
  have "L \<le> 20 * ((L + 19) div 20)"
    by simp
  then show ?thesis
    by (simp add: PBKDF2_ref_blocks)
qed

section \<open>Prefixes of the reference key and the number of iterations\<close>

lemma blocks_from_add:
  "blocks_from P S c i (m + n) = blocks_from P S c i m @ blocks_from P S c (i + m) n"
proof -
  have "[i..<i + (m + n)] = [i..<i + m] @ [i + m..<i + m + n]"
    using upt_add_eq_append [of i "i + m" n] by (simp add: add.assoc)
  then show ?thesis
    by (simp add: blocks_from_def)
qed

lemma PBKDF2_ref_prefix:
  assumes "K \<le> L"
  shows "take K (PBKDF2_ref P S c L) = PBKDF2_ref P S c K"
proof -
  let ?nK = "(K + 19) div 20" and ?nL = "(L + 19) div 20"
  have le: "?nK \<le> ?nL"
    using assms by (intro div_le_mono) simp
  have cover: "K \<le> 20 * ?nK"
    by simp
  have "blocks_from P S c 1 ?nL =
      blocks_from P S c 1 ?nK @ blocks_from P S c (1 + ?nK) (?nL - ?nK)"
    using blocks_from_add [of P S c 1 ?nK "?nL - ?nK"] le by simp
  then have "take K (blocks_from P S c 1 ?nL) = take K (blocks_from P S c 1 ?nK)"
    using cover by simp
  moreover have "take K (take L (blocks_from P S c 1 ?nL)) = take K (blocks_from P S c 1 ?nL)"
    using assms by (simp add: min_def)
  ultimately show ?thesis
    by (simp only: PBKDF2_ref_blocks)
qed

lemma funpow_block_loop:
  "block_loop P sl rounds s = ((block_body P sl rounds) ^^ ((st_key_len s + 19) div 20)) s \<and>
   st_key_len (block_loop P sl rounds s) = 0"
proof (induction "st_key_len s" arbitrary: s rule: less_induct)
  case less
  show ?case
  proof (cases "st_key_len s = 0")
    case True
    then show ?thesis
      by (simp add: block_loop_stop)
  next
    case False
    let ?s' = "block_body P sl rounds s"
    have L': "st_key_len ?s' = st_key_len s - min (st_key_len s) 20"
      by (simp add: st_key_len_block_body SHA1_DIGEST_LENGTH_def)
    with False have dec: "st_key_len ?s' < st_key_len s"
      by simp
    have n: "(st_key_len s + 19) div 20 = Suc ((st_key_len ?s' + 19) div 20)"
    proof (cases "st_key_len s < 20")
      case True
      with False show ?thesis by (simp add: L')
    next
      case False
      then show ?thesis by (simp add: L')
    qed
    have loop: "block_loop P sl rounds s = block_loop P sl rounds ?s'"
      using False by (simp add: block_loop_step)
    note IH = less.hyps [OF dec]
    have "block_loop P sl rounds ?s' =
        ((block_body P sl rounds) ^^ ((st_key_len ?s' + 19) div 20)) ?s'"
      using IH by (rule conjunct1)
    also have "\<dots> = ((block_body P sl rounds) ^^ ((st_key_len s + 19) div 20)) s"
      unfolding n by (simp only: funpow_Suc_right o_apply)
    finally have "block_loop P sl rounds s =
        ((block_body P sl rounds) ^^ ((st_key_len s + 19) div 20)) s"
      by (simp only: loop)
    moreover have "st_key_len (block_loop P sl rounds s) = 0"
      unfolding loop using IH by (rule conjunct2)
    ultimately show ?thesis
      by (rule conjI)
  qed
qed

section \<open>The claims\<close>

text \<open>
  An environment for the concrete instances below: every allocation succeeds, fresh heap
  blocks and uninitialised stack arrays hold arbitrary non-zero bytes.
\<close>

definition env_ok :: env where
  "env_ok = \<lparr>alloc_ok = (\<lambda>n. True), heap_junk = (\<lambda>i. 0xAA), stack_junk = (\<lambda>i. 0x55)\<rparr>"

text \<open>
  C1. For every password, non-empty salt, key length of at least 1 and round count of at
  least 1 (the salt leaving room for the 4-byte counter, the scratch buffer allocated), the
  key that \<^verbatim>\<open>pbkdf2\<close> returns is the PBKDF2 reference value: the blocks \<open>T 1\<close>,
  \<open>T 2\<close>, ... concatenated and cut to the key length, where \<open>T i\<close> is the XOR of
  \<open>U 1 = HMAC(salt || INT(i), password)\<close> and \<open>U j = HMAC(U (j - 1), password)\<close> for
  \<open>j\<close> up to the round count.
\<close>

theorem pbkdf2_is_PBKDF2_ref:
  assumes "1 \<le> rounds" and "1 \<le> key_len" and "salt \<noteq> []"
    and "length salt + 4 \<le> SIZE_MAX" and "alloc_ok e (length salt + 4)"
  shows "pbkdf2 e pass salt key_len rounds =
    Returns (Inr (PBKDF2_ref pass salt (unat rounds) (unat key_len)))"
  using assms by (rule pbkdf2_ok)

theorem pbkdf2_is_PBKDF2_ref_witness:
  "pbkdf2 env_ok [0x70, 0x77] [0x73] 45 3 = Returns (Inr (PBKDF2_ref [0x70, 0x77] [0x73] 3 45))"
  using pbkdf2_is_PBKDF2_ref [of 3 45 "[0x73]" env_ok "[0x70, 0x77]"]
  by (simp add: env_ok_def SIZE_MAX_def)

text \<open>
  C2. For every message and key, \<^verbatim>\<open>hmac_sha1\<close> yields
  \<open>hash(outer-pad || hash(inner-pad || message))\<close>, the pads built from the key hashed
  when it is longer than 64 bytes and zero-padded to 64 bytes, XORed with \<open>0x36\<close> and
  \<open>0x5c\<close>. The function has no failing branch: there is a 20-byte digest for every
  input, the empty message and the empty key included.
\<close>

theorem hmac_sha1_is_HMAC_ref:
  "hmac_sha1 text key = HMAC_ref text key \<and> length (hmac_sha1 text key) = SHA1_DIGEST_LENGTH"
  by (simp add: hmac_sha1_eq SHA1_DIGEST_LENGTH_def)

theorem hmac_sha1_is_HMAC_ref_witness:
  "hmac_sha1 [] [] = SHA1 (replicate 64 0x5c @ SHA1 (replicate 64 0x36)) \<and>
   length (hmac_sha1 [] []) = 20"
  using hmac_sha1_is_HMAC_ref [of "[]" "[]"]
  by (simp add: HMAC_ref_def inner_pad_def outer_pad_def effective_key_def zero_padded_def
      SHA1_DIGEST_LENGTH_def)

text \<open>
  C3. For every valid input (at least one round, key length of at least 1, a non-empty salt
  that leaves room for the counter, the scratch buffer allocated) \<^verbatim>\<open>pbkdf2\<close>
  succeeds with a key of exactly the requested length. When it fails, the caller gets the
  error and no key: \<^verbatim>\<open>pkcs5_pbkdf2\<close> returned \<open>- 1\<close> before it allocated
  anything and the output buffer is still as \<^verbatim>\<open>resize\<close> left it.
\<close>

theorem derive_key_length:
  "(1 \<le> rounds \<and> 1 \<le> key_len \<and> salt \<noteq> [] \<and> length salt + 4 \<le> SIZE_MAX \<and>
      alloc_ok e (length salt + 4) \<longrightarrow>
      (\<exists>key. pbkdf2 e pass salt key_len rounds = Returns (Inr key) \<and>
         length key = unat key_len)) \<and>
   (\<forall>err. pbkdf2 e pass salt key_len rounds = Returns (Inl err) \<longrightarrow>
      (\<exists>fr. pkcs5_pbkdf2 e pass salt (replicate (unat key_len) 0) rounds = Returns fr \<and>
         fr_ret fr = - 1 \<and> fr_key fr = replicate (unat key_len) 0 \<and> fr_asalt fr = None))"
proof (intro conjI impI allI)
  assume "1 \<le> rounds \<and> 1 \<le> key_len \<and> salt \<noteq> [] \<and> length salt + 4 \<le> SIZE_MAX \<and>
      alloc_ok e (length salt + 4)"
  then have "pbkdf2 e pass salt key_len rounds =
      Returns (Inr (PBKDF2_ref pass salt (unat rounds) (unat key_len)))"
    by (intro pbkdf2_ok) simp_all
  then show "\<exists>key. pbkdf2 e pass salt key_len rounds = Returns (Inr key) \<and>
      length key = unat key_len"
    by simp
next
  fix err
  let ?key = "replicate (unat key_len) (0 :: byte)"
  assume fail: "pbkdf2 e pass salt key_len rounds = Returns (Inl err)"
  have "pkcs5_pbkdf2 e pass salt ?key rounds = Returns (early_frame e ?key)"
  proof (rule ccontr)
    assume "pkcs5_pbkdf2 e pass salt ?key rounds \<noteq> Returns (early_frame e ?key)"
    then have "pkcs5_pbkdf2 e pass salt ?key rounds = Overrun \<or>
        pkcs5_pbkdf2 e pass salt ?key rounds = Returns (done_frame pass salt ?key rounds)"
      by (simp add: pkcs5_pbkdf2_cases split: if_splits)
    then show False
      using fail by (auto simp: pbkdf2_def Let_def throw_c_def done_frame_def)
  qed
  then show "\<exists>fr. pkcs5_pbkdf2 e pass salt ?key rounds = Returns fr \<and>
      fr_ret fr = - 1 \<and> fr_key fr = ?key \<and> fr_asalt fr = None"
    by (simp add: early_frame_def)
qed

theorem derive_key_length_witness:
  "(\<exists>key. pbkdf2 env_ok [0x70] [0x73] 45 3 = Returns (Inr key) \<and> length key = 45) \<and>
   pbkdf2 env_ok [0x70] [0x73] 45 0 = Returns (Inl DerivationFailed) \<and>
   (\<exists>fr. pkcs5_pbkdf2 env_ok [0x70] [0x73] (replicate 45 0) 0 = Returns fr \<and>
      fr_ret fr = - 1 \<and> fr_key fr = replicate 45 0 \<and> fr_asalt fr = None)"
proof -
  have fail: "pbkdf2 env_ok [0x70] [0x73] 45 0 = Returns (Inl DerivationFailed)"
    by (simp add: pbkdf2_cases)
  show ?thesis
    using derive_key_length [of 3 45 "[0x73]" env_ok "[0x70]"]
      derive_key_length [of 0 45 "[0x73]" env_ok "[0x70]"] fail
    by (simp add: env_ok_def SIZE_MAX_def)
qed

text \<open>
  C4. Prefix stability: for lengths \<open>1 \<le> K \<le> L\<close> and otherwise equal valid inputs, the
  first \<open>K\<close> bytes of the key of length \<open>L\<close> are the key of length \<open>K\<close>.
\<close>

theorem derive_key_prefix:
  assumes "1 \<le> rounds" and "1 \<le> K" and "K \<le> L" and "salt \<noteq> []"
    and "length salt + 4 \<le> SIZE_MAX" and "alloc_ok e (length salt + 4)"
  shows "\<exists>kL kK. pbkdf2 e pass salt L rounds = Returns (Inr kL) \<and>
    pbkdf2 e pass salt K rounds = Returns (Inr kK) \<and> take (unat K) kL = kK"
proof -
  have "1 \<le> L"
    using assms(2,3) by simp
  then have L: "pbkdf2 e pass salt L rounds =
      Returns (Inr (PBKDF2_ref pass salt (unat rounds) (unat L)))"
    using assms by (intro pbkdf2_ok) simp_all
  have K: "pbkdf2 e pass salt K rounds =
      Returns (Inr (PBKDF2_ref pass salt (unat rounds) (unat K)))"
    using assms by (intro pbkdf2_ok) simp_all
  have "unat K \<le> unat L"
    using assms(3) by (simp add: word_le_nat_alt)
  then show ?thesis
    using L K by (simp add: PBKDF2_ref_prefix)
qed

theorem derive_key_prefix_witness:
  "\<exists>kL kK. pbkdf2 env_ok [0x70] [0x73] 45 3 = Returns (Inr kL) \<and>
    pbkdf2 env_ok [0x70] [0x73] 17 3 = Returns (Inr kK) \<and> take 17 kL = kK"
  using derive_key_prefix [of 3 17 45 "[0x73]" env_ok "[0x70]"]
  by (simp add: env_ok_def SIZE_MAX_def)

text \<open>
  C9. The empty password is accepted: with a valid salt, key length and round count, the
  derivation from a password of length 0 succeeds with a key of exactly the requested
  length.
\<close>

theorem empty_password_accepted:
  assumes "1 \<le> rounds" and "1 \<le> key_len" and "salt \<noteq> []"
    and "length salt + 4 \<le> SIZE_MAX" and "alloc_ok e (length salt + 4)"
  shows "\<exists>key. pbkdf2 e [] salt key_len rounds = Returns (Inr key) \<and>
    length key = unat key_len"
proof -
  have "pbkdf2 e [] salt key_len rounds =
      Returns (Inr (PBKDF2_ref [] salt (unat rounds) (unat key_len)))"
    using assms by (rule pbkdf2_ok)
  then show ?thesis
    by simp
qed

theorem empty_password_accepted_witness:
  "\<exists>key. pbkdf2 env_ok [] [0x73] 32 1000 = Returns (Inr key) \<and> length key = 32"
  using empty_password_accepted [of 1000 32 "[0x73]" env_ok]
  by (simp add: env_ok_def SIZE_MAX_def)

definition state45 :: pk_state where
  "state45 = \<lparr>st_asalt = [0x73, 0, 0, 0, 0], st_obuf = replicate 20 0, st_d1 = replicate 20 0,
     st_d2 = replicate 20 0, st_key = replicate 45 0, st_pos = 0, st_key_len = 45,
     st_count = 1\<rparr>"

text \<open>
  C10. The block loop terminates: it is the body iterated \<open>\<lceil>key_len / 20\<rceil>\<close> times, after
  which nothing is left to fill. While something is left, an iteration copies
  \<open>min(key_len, 20) \<ge> 1\<close> bytes and leaves strictly less. (The recursion of
  \<open>block_loop\<close> is well-founded on the remaining length: its termination proof above.)
\<close>

theorem block_loop_terminates:
  "block_loop pass salt_len rounds s =
     ((block_body pass salt_len rounds) ^^ ((st_key_len s + 19) div 20)) s \<and>
   st_key_len (block_loop pass salt_len rounds s) = 0 \<and>
   (0 < st_key_len s \<longrightarrow>
      1 \<le> min (st_key_len s) SHA1_DIGEST_LENGTH \<and>
      st_key_len (block_body pass salt_len rounds s) =
        st_key_len s - min (st_key_len s) SHA1_DIGEST_LENGTH \<and>
      st_key_len (block_body pass salt_len rounds s) < st_key_len s)"
proof (intro conjI impI)
  show "block_loop pass salt_len rounds s =
      ((block_body pass salt_len rounds) ^^ ((st_key_len s + 19) div 20)) s"
    using funpow_block_loop [of pass salt_len rounds s] by (rule conjunct1)
  show "st_key_len (block_loop pass salt_len rounds s) = 0"
    using funpow_block_loop [of pass salt_len rounds s] by (rule conjunct2)
  show "st_key_len (block_body pass salt_len rounds s) =
      st_key_len s - min (st_key_len s) SHA1_DIGEST_LENGTH"
    by (rule st_key_len_block_body)
  assume "0 < st_key_len s"
  then show "1 \<le> min (st_key_len s) SHA1_DIGEST_LENGTH"
    by (simp add: SHA1_DIGEST_LENGTH_def)
  then show "st_key_len (block_body pass salt_len rounds s) < st_key_len s"
    using \<open>0 < st_key_len s\<close> by (simp add: st_key_len_block_body)
qed

theorem block_loop_terminates_witness:
  "block_loop [0x70] 1 3 state45 = ((block_body [0x70] 1 3) ^^ 3) state45 \<and>
   st_key_len (block_loop [0x70] 1 3 state45) = 0 \<and>
   st_key_len (block_body [0x70] 1 3 state45) = 25"
proof -
  have L: "st_key_len state45 = 45"
    by (simp add: state45_def)
  have n: "(45 + 19) div 20 = (3 :: nat)"
    by simp
  note t = block_loop_terminates [of "[0x70]" 1 3 state45, unfolded L n]
  from t have "block_loop [0x70] 1 3 state45 = ((block_body [0x70] 1 3) ^^ 3) state45"
    by (rule conjunct1)
  moreover from t have "st_key_len (block_loop [0x70] 1 3 state45) = 0"
    by (rule conjunct1 [OF conjunct2])
  moreover have "st_key_len (block_body [0x70] 1 3 state45) = 25"
  proof -
    have "0 < (45 :: nat)"
      by simp
    with t have "st_key_len (block_body [0x70] 1 3 state45) = 45 - min 45 SHA1_DIGEST_LENGTH"
      by blast
    then show ?thesis
      by (simp add: SHA1_DIGEST_LENGTH_def)
  qed
  ultimately show ?thesis
    by (intro conjI)
qed

section \<open>Failures and the guard on the salt length\<close>

text \<open>
  Away from the three salt lengths at which \<^verbatim>\<open>salt_len + 4\<close> wraps around, the entry
  point fails exactly when a parameter is invalid or the allocation fails; it fails from the
  checks at the head of \<^verbatim>\<open>pkcs5_pbkdf2\<close>, before the first HMAC call.
\<close>

lemma pbkdf2_fails_iff:
  assumes "length salt + 4 \<le> SIZE_MAX \<or> SIZE_MAX \<le> length salt"
  shows "pbkdf2 e pass salt key_len rounds = Returns (Inl DerivationFailed) \<longleftrightarrow>
    rounds < 1 \<or> key_len = 0 \<or> salt = [] \<or> SIZE_MAX \<le> length salt \<or>
    \<not> alloc_ok e (length salt + 4)"
proof (cases "SIZE_MAX \<le> length salt")
  case True
  then have "SIZE_MAX - 1 < length salt"
    by (simp add: SIZE_MAX_def)
  with True show ?thesis
    by (simp add: pbkdf2_cases)
next
  case False
  with assms have fit: "length salt + 4 \<le> SIZE_MAX"
    by simp
  then have "(length salt + 4) mod (SIZE_MAX + 1) = length salt + 4"
    by simp
  moreover from fit have "\<not> SIZE_MAX - 1 < length salt" "\<not> SIZE_MAX < length salt + 4"
    by simp_all
  ultimately show ?thesis
    using False by (simp add: pbkdf2_cases)
qed

lemma pkcs5_pbkdf2_frames:
  assumes "pkcs5_pbkdf2 e pass salt key rounds = Returns fr"
  shows "fr = done_frame pass salt key rounds \<or> fr = early_frame e key"
  using assms by (simp add: pkcs5_pbkdf2_cases split: if_splits)

text \<open>An environment in which every allocation fails.\<close>

definition env_no_mem :: env where
  "env_no_mem = \<lparr>alloc_ok = (\<lambda>n. False), heap_junk = (\<lambda>i. 0xAA), stack_junk = (\<lambda>i. 0x55)\<rparr>"

text \<open>
  C5. For every salt that a caller can hand over (a \<^verbatim>\<open>std::string\<close>, so that
  \<^verbatim>\<open>salt_len + 4\<close> fits a \<^verbatim>\<open>size_t\<close>; the length \<open>SIZE_MAX\<close> is covered
  as well), the derivation fails if and only if \<open>rounds < 1\<close>, or the key length is 0, or
  the salt is empty, or the salt length leaves no room for the 4-byte counter, or the
  allocation of the scratch buffer fails. There is one failure outcome, and a call that does
  not fail returns the key. A failure comes from the checks at the head of
  \<^verbatim>\<open>pkcs5_pbkdf2\<close>: it returned \<open>- 1\<close> with no block allocated, none of its arrays
  written and the output buffer untouched, before the first HMAC call.
\<close>

theorem derivation_fails_iff:
  assumes "length salt + 4 \<le> SIZE_MAX \<or> SIZE_MAX \<le> length salt"
  shows "(pbkdf2 e pass salt key_len rounds = Returns (Inl DerivationFailed) \<longleftrightarrow>
      rounds < 1 \<or> key_len = 0 \<or> salt = [] \<or> SIZE_MAX < length salt + 4 \<or>
      \<not> alloc_ok e (length salt + 4)) \<and>
    (pbkdf2 e pass salt key_len rounds = Returns (Inl DerivationFailed) \<or>
     pbkdf2 e pass salt key_len rounds =
       Returns (Inr (PBKDF2_ref pass salt (unat rounds) (unat key_len)))) \<and>
    (pbkdf2 e pass salt key_len rounds = Returns (Inl DerivationFailed) \<longrightarrow>
       pkcs5_pbkdf2 e pass salt (replicate (unat key_len) 0) rounds =
         Returns (early_frame e (replicate (unat key_len) 0)))"
proof (intro conjI impI)
  have unfit: "SIZE_MAX < length salt + 4 \<longleftrightarrow> SIZE_MAX \<le> length salt"
    using assms by auto
  show "pbkdf2 e pass salt key_len rounds = Returns (Inl DerivationFailed) \<longleftrightarrow>
      rounds < 1 \<or> key_len = 0 \<or> salt = [] \<or> SIZE_MAX < length salt + 4 \<or>
      \<not> alloc_ok e (length salt + 4)"
    unfolding unfit using assms by (rule pbkdf2_fails_iff)
  have no_overrun: "rounds < 1 \<or> key_len = 0 \<or> salt = [] \<or> SIZE_MAX - 1 < length salt \<or>
      \<not> alloc_ok e ((length salt + 4) mod (SIZE_MAX + 1)) \<or> \<not> SIZE_MAX < length salt + 4"
    using assms by (auto simp: SIZE_MAX_def)
  then show "pbkdf2 e pass salt key_len rounds = Returns (Inl DerivationFailed) \<or>
     pbkdf2 e pass salt key_len rounds =
       Returns (Inr (PBKDF2_ref pass salt (unat rounds) (unat key_len)))"
    by (auto simp: pbkdf2_cases)
next
  let ?key = "replicate (unat key_len) (0 :: byte)"
  assume fail: "pbkdf2 e pass salt key_len rounds = Returns (Inl DerivationFailed)"
  show "pkcs5_pbkdf2 e pass salt ?key rounds = Returns (early_frame e ?key)"
  proof (rule ccontr)
    assume "pkcs5_pbkdf2 e pass salt ?key rounds \<noteq> Returns (early_frame e ?key)"
    then have "pkcs5_pbkdf2 e pass salt ?key rounds = Overrun \<or>
        pkcs5_pbkdf2 e pass salt ?key rounds = Returns (done_frame pass salt ?key rounds)"
      by (simp add: pkcs5_pbkdf2_cases split: if_splits)
    then show False
      using fail by (auto simp: pbkdf2_def Let_def throw_c_def done_frame_def)
  qed
qed

theorem derivation_fails_iff_witness:
  "pbkdf2 env_ok [0x70] [0x73] 45 3 = Returns (Inr (PBKDF2_ref [0x70] [0x73] 3 45)) \<and>
   pbkdf2 env_ok [0x70] [0x73] 45 0 = Returns (Inl DerivationFailed) \<and>
   pbkdf2 env_ok [0x70] [0x73] 0 3 = Returns (Inl DerivationFailed) \<and>
   pbkdf2 env_ok [0x70] [] 45 3 = Returns (Inl DerivationFailed) \<and>
   pbkdf2 env_no_mem [0x70] [0x73] 45 3 = Returns (Inl DerivationFailed) \<and>
   pbkdf2 env_ok [0x70] (replicate SIZE_MAX 0x73) 45 3 = Returns (Inl DerivationFailed) \<and>
   pkcs5_pbkdf2 env_no_mem [0x70] [0x73] (replicate 45 0) 3 =
     Returns (early_frame env_no_mem (replicate 45 0))"
proof -
  have fit: "length [0x73 :: byte] + 4 \<le> SIZE_MAX \<or> SIZE_MAX \<le> length [0x73 :: byte]"
    by (simp add: SIZE_MAX_def)
  have fit0: "length ([] :: bytes) + 4 \<le> SIZE_MAX \<or> SIZE_MAX \<le> length ([] :: bytes)"
    by (simp add: SIZE_MAX_def)
  have big: "length (replicate SIZE_MAX (0x73 :: byte)) + 4 \<le> SIZE_MAX \<or>
      SIZE_MAX \<le> length (replicate SIZE_MAX (0x73 :: byte))"
    by simp
  note a = derivation_fails_iff [OF fit, of env_ok "[0x70]" 45 3]
  note b = derivation_fails_iff [OF fit, of env_ok "[0x70]" 45 0]
  note c = derivation_fails_iff [OF fit, of env_ok "[0x70]" 0 3]
  note d = derivation_fails_iff [OF fit0, of env_ok "[0x70]" 45 3]
  note f = derivation_fails_iff [OF fit, of env_no_mem "[0x70]" 45 3]
  note g = derivation_fails_iff [OF big, of env_ok "[0x70]" 45 3]
  have 1: "pbkdf2 env_ok [0x70] [0x73] 45 3 = Returns (Inr (PBKDF2_ref [0x70] [0x73] 3 45))"
  proof -
    have "alloc_ok env_ok (length [0x73 :: byte] + 4)"
      by (simp add: env_ok_def)
    with a show ?thesis
      by (auto simp: SIZE_MAX_def)
  qed
  have 2: "pbkdf2 env_ok [0x70] [0x73] 45 0 = Returns (Inl DerivationFailed)"
    using b by simp
  have 3: "pbkdf2 env_ok [0x70] [0x73] 0 3 = Returns (Inl DerivationFailed)"
    using c by simp
  have 4: "pbkdf2 env_ok [0x70] [] 45 3 = Returns (Inl DerivationFailed)"
    using d by simp
  have 5: "pbkdf2 env_no_mem [0x70] [0x73] 45 3 = Returns (Inl DerivationFailed)"
    using f by (simp add: env_no_mem_def)
  have 6: "pbkdf2 env_ok [0x70] (replicate SIZE_MAX 0x73) 45 3 = Returns (Inl DerivationFailed)"
    using g by simp
  have 7: "pkcs5_pbkdf2 env_no_mem [0x70] [0x73] (replicate 45 0) 3 =
     Returns (early_frame env_no_mem (replicate 45 0))"
    using f 5 by simp
  from 1 2 3 4 5 6 7 show ?thesis
    by (intro conjI)
qed




section \<open>What the scratch buffers hold at return\<close>

text \<open>
  C8, as stated, fails: \<^verbatim>\<open>hmac_sha1\<close> has no \<^verbatim>\<open>bzero\<close> after its last
  hash. At the return of the first HMAC call of the derivation with password "password" and
  salt "salt", \<^verbatim>\<open>k_pad\<close> is not zero: it holds the password XORed with \<open>0x5c\<close>.
\<close>

theorem hmac_k_pad_not_scrubbed:
  "hm_k_pad (hmac_sha1_frame [0x73, 0x61, 0x6c, 0x74, 0, 0, 0, 1]
      [0x70, 0x61, 0x73, 0x73, 0x77, 0x6f, 0x72, 0x64]) \<noteq> replicate SHA1_BLOCK_LENGTH 0"
proof -
  have "hd (hm_k_pad (hmac_sha1_frame [0x73, 0x61, 0x6c, 0x74, 0, 0, 0, 1]
      [0x70, 0x61, 0x73, 0x73, 0x77, 0x6f, 0x72, 0x64])) = 0x2c"
    by (simp add: hmac_sha1_frame_eq outer_pad_def effective_key_def zero_padded_def)
  moreover have "hd (replicate SHA1_BLOCK_LENGTH (0 :: byte)) = 0"
    by (simp add: SHA1_BLOCK_LENGTH_def)
  ultimately show ?thesis
    by auto
qed

text \<open>
  C8, amended. When \<^verbatim>\<open>pkcs5_pbkdf2\<close> returns 0, the salt-plus-counter block (as it
  is handed to \<^verbatim>\<open>free\<close>) and the arrays \<^verbatim>\<open>obuf\<close>, \<^verbatim>\<open>d1\<close> and
  \<^verbatim>\<open>d2\<close> hold only zero bytes. When it returns \<open>- 1\<close>, it has allocated no block
  and written none of the three arrays: they are not zeroed and hold what the stack held
  before. \<^verbatim>\<open>hmac_sha1\<close> scrubs nothing: at its return \<^verbatim>\<open>k_pad\<close> holds the
  outer pad, the effective key XORed with \<open>0x5c\<close>.
\<close>

theorem scratch_buffers_at_return:
  "(pkcs5_pbkdf2 e pass salt key rounds = Returns fr \<longrightarrow>
      (fr_ret fr = 0 \<and> fr_asalt fr = Some (replicate (length salt + 4) 0) \<and>
       fr_obuf fr = replicate 20 0 \<and> fr_d1 fr = replicate 20 0 \<and> fr_d2 fr = replicate 20 0) \<or>
      (fr_ret fr = - 1 \<and> fr_asalt fr = None \<and> fr_obuf fr = stack_array e 0 20 \<and>
       fr_d1 fr = stack_array e 20 20 \<and> fr_d2 fr = stack_array e 40 20)) \<and>
   hm_k_pad (hmac_sha1_frame text k) = outer_pad k"
proof (intro conjI impI)
  assume "pkcs5_pbkdf2 e pass salt key rounds = Returns fr"
  then have "fr = done_frame pass salt key rounds \<or> fr = early_frame e key"
    by (rule pkcs5_pbkdf2_frames)
  then show "(fr_ret fr = 0 \<and> fr_asalt fr = Some (replicate (length salt + 4) 0) \<and>
       fr_obuf fr = replicate 20 0 \<and> fr_d1 fr = replicate 20 0 \<and> fr_d2 fr = replicate 20 0) \<or>
      (fr_ret fr = - 1 \<and> fr_asalt fr = None \<and> fr_obuf fr = stack_array e 0 20 \<and>
       fr_d1 fr = stack_array e 20 20 \<and> fr_d2 fr = stack_array e 40 20)"
    by (auto simp: done_frame_def early_frame_def)
next
  show "hm_k_pad (hmac_sha1_frame text k) = outer_pad k"
    by (simp add: hmac_sha1_frame_eq)
qed

theorem scratch_buffers_at_return_witness:
  "pkcs5_pbkdf2 env_ok [0x70] [0x73] (replicate 45 0) 3 =
     Returns (done_frame [0x70] [0x73] (replicate 45 0) 3) \<and>
   fr_asalt (done_frame [0x70] [0x73] (replicate 45 0) 3) = Some (replicate 5 0) \<and>
   fr_obuf (done_frame [0x70] [0x73] (replicate 45 0) 3) = replicate 20 0 \<and>
   fr_d1 (done_frame [0x70] [0x73] (replicate 45 0) 3) = replicate 20 0 \<and>
   fr_d2 (done_frame [0x70] [0x73] (replicate 45 0) 3) = replicate 20 0 \<and>
   pkcs5_pbkdf2 env_ok [0x70] [] (replicate 45 0) 3 = Returns (early_frame env_ok (replicate 45 0)) \<and>
   fr_asalt (early_frame env_ok (replicate 45 0)) = None \<and>
   fr_obuf (early_frame env_ok (replicate 45 0)) = replicate 20 0x55 \<and>
   hm_k_pad (hmac_sha1_frame [] []) = replicate 64 0x5c"
proof -
  have ok: "pkcs5_pbkdf2 env_ok [0x70] [0x73] (replicate 45 0) 3 =
     Returns (done_frame [0x70] [0x73] (replicate 45 0) 3)"
    by (simp add: pkcs5_pbkdf2_cases env_ok_def SIZE_MAX_def)
  have early: "pkcs5_pbkdf2 env_ok [0x70] [] (replicate 45 0) 3 =
     Returns (early_frame env_ok (replicate 45 0))"
    by (simp add: pkcs5_pbkdf2_cases)
  have junk: "stack_array env_ok 0 20 = replicate 20 0x55"
    by (simp add: stack_array_def env_ok_def map_replicate_const)
  have pad: "outer_pad [] = replicate 64 0x5c"
    by (simp add: outer_pad_def effective_key_def zero_padded_def)
  from scratch_buffers_at_return
    [of env_ok "[0x70]" "[0x73]" "replicate 45 0" 3 "done_frame [0x70] [0x73] (replicate 45 0) 3"
      "[]" "[]"]
    scratch_buffers_at_return
    [of env_ok "[0x70]" "[]" "replicate 45 0" 3 "early_frame env_ok (replicate 45 0)" "[]" "[]"]
  show ?thesis
    using ok early junk pad by (simp add: done_frame_def early_frame_def)
qed

section \<open>The known answer\<close>

text \<open>
  Evaluation of the hash inside the logic: the same equations as the definitions, with every
  sum and rotation reduced to its 32 bits as soon as it is computed.
\<close>

lemma rotl_eval: "rotl n x = take_bit 32 (push_bit n x OR drop_bit (32 - n) x)"
  by (simp add: rotl_def take_bit_word_eq_self)

lemma sha1_f_eval:
  "sha1_f t b c d =
     (if t < 20 then (b AND c) XOR ((b XOR 0xFFFFFFFF) AND d)
      else if t < 40 then b XOR c XOR d
      else if t < 60 then (b AND c) XOR (b AND d) XOR (c AND d)
      else b XOR c XOR d)"
proof -
  have "(0xFFFFFFFF :: u_int) = - 1"
    by simp
  then have "NOT b = b XOR 0xFFFFFFFF"
    by (simp only: bit.xor_one_right)
  then show ?thesis
    by (simp add: sha1_f_def)
qed

lemma sha1_step_eval:
  "sha1_step t (a, b, c, d, e) w =
     (take_bit 32 (rotl 5 a + sha1_f t b c d + e + sha1_K t + w), a, rotl 30 b, c, d)"
  by (simp add: take_bit_word_eq_self)

lemma sha1_add_eval:
  "sha1_add (h0, h1, h2, h3, h4) (a, b, c, d, e) =
     (take_bit 32 (h0 + a), take_bit 32 (h1 + b), take_bit 32 (h2 + c),
      take_bit 32 (h3 + d), take_bit 32 (h4 + e))"
  by (simp add: take_bit_word_eq_self)

lemma sha1_schedule_numeral:
  "sha1_schedule (numeral k) ws =
     sha1_schedule (pred_numeral k) (rotl 1 (ws ! 2 XOR ws ! 7 XOR ws ! 13 XOR ws ! 15) # ws)"
  by (simp add: numeral_eq_Suc)

lemma sha1_blocks_numeral:
  "sha1_blocks (numeral k) h m =
     sha1_blocks (pred_numeral k) (sha1_block h (take 64 m)) (drop 64 m)"
  by (simp add: numeral_eq_Suc)

lemma sha1_blocks_1: "sha1_blocks 1 h m = sha1_block h (take 64 m)"
  using sha1_blocks.simps(2) [of 0 h m] by simp

lemma replicate_numeral: "replicate (numeral k) x = x # replicate (pred_numeral k) x"
  by (simp add: numeral_eq_Suc)

lemmas sha1_eval = replicate_numeral rotl_eval sha1_f_eval sha1_step_eval sha1_add_eval
  sha1_schedule_numeral sha1_blocks_numeral sha1_blocks_1 sha1_K_def sha1_block_def
  sha1_init_def SHA1_def sha1_pad_def be32_def be64_def Let_def

text \<open>Strings as bytes, and bytes as lower-case hexadecimal digits.\<close>

definition bytes_of :: "string \<Rightarrow> bytes" where
  "bytes_of s = map of_char s"

definition hex_digit :: "nat \<Rightarrow> char" where
  "hex_digit n = ''0123456789abcdef'' ! n"

definition hex_byte :: "byte \<Rightarrow> string" where
  "hex_byte b = [hex_digit (unat b div 16), hex_digit (unat b mod 16)]"

definition hex :: "bytes \<Rightarrow> string" where
  "hex bs = concat (map hex_byte bs)"

definition derived_hex :: "(error + bytes) exec \<Rightarrow> string option" where
  "derived_hex r = (case r of Returns (Inr key) \<Rightarrow> Some (hex key) | _ \<Rightarrow> None)"

text \<open>The model of the hash on the test vector of the standard.\<close>

lemma SHA1_abc:
  "SHA1 (bytes_of ''abc'') =
   [0xa9, 0x99, 0x3e, 0x36, 0x47, 0x06, 0x81, 0x6a, 0xba, 0x3e, 0x25, 0x71, 0x78, 0x50, 0xc2,
    0x6c, 0x9c, 0xd0, 0xd8, 0x9d]"
  by (simp add: sha1_eval bytes_of_def del: sha1_step.simps sha1_add.simps)

lemma kat_inner:
  "SHA1 (inner_pad [0x70, 0x61, 0x73, 0x73, 0x77, 0x6f, 0x72, 0x64] @
         [0x73, 0x61, 0x6c, 0x74] @ INT4 1) =
   [0x19, 0xa5, 0xf8, 0x32, 0x15, 0xb5, 0x95, 0xef, 0x9c, 0xdf, 0xcc, 0xfb, 0x3a, 0x8c, 0xc2,
    0x78, 0xe5, 0x5b, 0x85, 0x76]"
  by (simp add: sha1_eval inner_pad_def effective_key_def zero_padded_def INT4_def
      del: sha1_step.simps sha1_add.simps)

lemma bytes_of_password: "bytes_of ''password'' = [0x70, 0x61, 0x73, 0x73, 0x77, 0x6f, 0x72, 0x64]"
  by (simp add: bytes_of_def)

lemma bytes_of_salt: "bytes_of ''salt'' = [0x73, 0x61, 0x6c, 0x74]"
  by (simp add: bytes_of_def)

lemma kat_outer:
  "SHA1 (outer_pad [0x70, 0x61, 0x73, 0x73, 0x77, 0x6f, 0x72, 0x64] @
     [0x19, 0xa5, 0xf8, 0x32, 0x15, 0xb5, 0x95, 0xef, 0x9c, 0xdf, 0xcc, 0xfb, 0x3a, 0x8c, 0xc2,
      0x78, 0xe5, 0x5b, 0x85, 0x76]) =
   [0x0c, 0x60, 0xc8, 0x0f, 0x96, 0x1f, 0x0e, 0x71, 0xf3, 0xa9, 0xb5, 0x24, 0xaf, 0x60, 0x12,
    0x06, 0x2f, 0xe0, 0x37, 0xa6]"
  by (simp add: sha1_eval outer_pad_def effective_key_def zero_padded_def
      del: sha1_step.simps sha1_add.simps)

lemma kat_reference:
  "PBKDF2_ref (bytes_of ''password'') (bytes_of ''salt'') 1 20 =
   [0x0c, 0x60, 0xc8, 0x0f, 0x96, 0x1f, 0x0e, 0x71, 0xf3, 0xa9, 0xb5, 0x24, 0xaf, 0x60, 0x12,
    0x06, 0x2f, 0xe0, 0x37, 0xa6]"
proof -
  have "PBKDF2_ref (bytes_of ''password'') (bytes_of ''salt'') 1 20 =
      HMAC_ref (bytes_of ''salt'' @ INT4 1) (bytes_of ''password'')"
    by (simp add: PBKDF2_ref_def T_ref_def)
  also have "\<dots> = SHA1 (outer_pad [0x70, 0x61, 0x73, 0x73, 0x77, 0x6f, 0x72, 0x64] @
      SHA1 (inner_pad [0x70, 0x61, 0x73, 0x73, 0x77, 0x6f, 0x72, 0x64] @
         [0x73, 0x61, 0x6c, 0x74] @ INT4 1))"
    by (simp only: HMAC_ref_def bytes_of_password bytes_of_salt)
  finally show ?thesis
    by (simp only: kat_inner kat_outer)
qed

lemma kat_key:
  "pbkdf2 env_ok (bytes_of ''password'') (bytes_of ''salt'') 20 1 =
   Returns (Inr [0x0c, 0x60, 0xc8, 0x0f, 0x96, 0x1f, 0x0e, 0x71, 0xf3, 0xa9, 0xb5, 0x24, 0xaf,
     0x60, 0x12, 0x06, 0x2f, 0xe0, 0x37, 0xa6])"
proof -
  have "pbkdf2 env_ok (bytes_of ''password'') (bytes_of ''salt'') 20 1 =
      Returns (Inr (PBKDF2_ref (bytes_of ''password'') (bytes_of ''salt'') (unat (1 :: u_int))
        (unat (20 :: u_int))))"
    by (rule pbkdf2_ok) (simp_all add: env_ok_def SIZE_MAX_def bytes_of_def)
  then show ?thesis
    using kat_reference by simp
qed

text \<open>
  C7, as stated, fails: the digest given has 39 hexadecimal digits, one short of the 20 bytes
  that the derivation returns.
\<close>

theorem known_answer_misses_last_digit:
  "derived_hex (pbkdf2 env_ok (bytes_of ''password'') (bytes_of ''salt'') 20 1) \<noteq>
   Some ''0c60c80f961f0e71f3a9b524af6012062fe037a''"
  by (simp add: kat_key derived_hex_def hex_def hex_byte_def hex_digit_def)

text \<open>
  C7, amended. With password "password", salt "salt", 1 round and 20 bytes of output the
  derived key is \<open>0c60c80f961f0e71f3a9b524af6012062fe037a6\<close>: the digest of the claim
  followed by the digit \<open>6\<close>, the published test vector.
\<close>

theorem known_answer:
  "pbkdf2 env_ok (bytes_of ''password'') (bytes_of ''salt'') 20 1 =
     Returns (Inr [0x0c, 0x60, 0xc8, 0x0f, 0x96, 0x1f, 0x0e, 0x71, 0xf3, 0xa9, 0xb5, 0x24, 0xaf,
       0x60, 0x12, 0x06, 0x2f, 0xe0, 0x37, 0xa6]) \<and>
   derived_hex (pbkdf2 env_ok (bytes_of ''password'') (bytes_of ''salt'') 20 1) =
     Some ''0c60c80f961f0e71f3a9b524af6012062fe037a6''"
  by (simp add: kat_key derived_hex_def hex_def hex_byte_def hex_digit_def)

end
